theory Spec2Isabelle
  imports
    Main
    "HOL-Library.Char_ord"
    "HOL-Library.List_Lexorder"
    "HOL-Library.Product_Lexorder"
begin

section \<open>Path identity\<close>

text \<open>
  \<^verbatim>\<open>fs::path\<close> is used as the key of \<^verbatim>\<open>std::map\<close> and \<^verbatim>\<open>std::set\<close>, and
  compared with the literal \<^verbatim>\<open>""\<close>. The containers order their keys by
  \<^verbatim>\<open>fs::path::compare\<close>, and two paths are the same key when it answers 0. It looks at
  three things, in this order: the root name, compared as a string; whether there is a
  root directory, a path without one coming first; and the file names of the relative
  part, compared one by one as strings, a proper prefix coming first. A path is modelled
  by these three things, and the order of paths is the lexicographic order of the three.
  Two spellings that \<^verbatim>\<open>compare\<close> does not tell apart, such as \<^verbatim>\<open>a//b\<close> and
  \<^verbatim>\<open>a/b\<close>, are one path. The empty path has no root name, no root directory and no
  file name; it is the least path.
\<close>

datatype path =
  Path (root_name: string) (has_root_directory: bool) (file_names: "string list")

instantiation path :: linorder
begin

definition less_eq_path :: "path \<Rightarrow> path \<Rightarrow> bool" where
  "p \<le> q \<longleftrightarrow>
     (root_name p, has_root_directory p, file_names p)
       \<le> (root_name q, has_root_directory q, file_names q)"

definition less_path :: "path \<Rightarrow> path \<Rightarrow> bool" where
  "p < q \<longleftrightarrow>
     (root_name p, has_root_directory p, file_names p)
       < (root_name q, has_root_directory q, file_names q)"

instance
  by standard (auto simp: less_eq_path_def less_path_def path.expand)

end

lemma Path_less [simp]:
  "Path a b c < Path a' b' c' \<longleftrightarrow> (a, b, c) < (a', b', c')"
  by (simp add: less_path_def)

lemma Path_less_eq [simp]:
  "Path a b c \<le> Path a' b' c' \<longleftrightarrow> (a, b, c) \<le> (a', b', c')"
  by (simp add: less_eq_path_def)

definition empty_path :: path where
  "empty_path = Path [] False []"

lemma empty_path_least: "empty_path \<le> p"
  by (cases p) (simp add: empty_path_def)

section \<open>The graph store\<close>

text \<open>
  \<^verbatim>\<open>std::map<fs::path, std::vector<fs::path>> adjList\<close>: an ordered map, kept as an
  association list in increasing key order, the order in which the source iterates it.
\<close>

type_synonym graph = "(path \<times> path list) list"

text \<open>\<^verbatim>\<open>m[k] = v\<close>: assignment through \<^verbatim>\<open>operator[]\<close>, at the place of the key.\<close>

fun put :: "path \<Rightarrow> 'v \<Rightarrow> (path \<times> 'v) list \<Rightarrow> (path \<times> 'v) list" where
  "put k v [] = [(k, v)]"
| "put k v ((k', v') # m) =
     (if k < k' then (k, v) # (k', v') # m
      else if k = k' then (k, v) # m
      else (k', v') # put k v m)"

text \<open>\<^verbatim>\<open>adjList.count(path)\<close> is 0 or 1; \<open>has_vertex\<close> is \<^verbatim>\<open>count(path) != 0\<close>.\<close>

definition has_vertex :: "graph \<Rightarrow> path \<Rightarrow> bool" where
  "has_vertex g p = (map_of g p \<noteq> None)"

text \<open>
  Reading \<^verbatim>\<open>adjList[v]\<close>: the neighbour list of a key, and the empty vector that
  \<^verbatim>\<open>operator[]\<close> creates for a path that is not a key.
\<close>

definition neighbors :: "(path \<times> path list) list \<Rightarrow> path \<Rightarrow> path list" where
  "neighbors g v = (case map_of g v of None \<Rightarrow> [] | Some ns \<Rightarrow> ns)"

text \<open>\<^verbatim>\<open>adjList.size()\<close>, the number of vertices.\<close>

definition vertex_count :: "graph \<Rightarrow> nat" where
  "vertex_count g = length g"

text \<open>
  \<^verbatim>\<open>
  void addVertex(const fs::path& path) {
      if (!adjList.count(path)) { adjList[path] = {}; }
  }
  \<close>
\<close>

definition addVertex :: "path \<Rightarrow> graph \<Rightarrow> graph" where
  "addVertex p g = (if \<not> has_vertex g p then put p [] g else g)"

text \<open>
  \<^verbatim>\<open>
  void addEdge(const fs::path& source, const fs::path& destination) {
      addVertex(source);
      addVertex(destination);
      adjList[source].push_back(destination);
  }
  \<close>
\<close>

definition push_back :: "path \<Rightarrow> path \<Rightarrow> (path \<times> path list) list \<Rightarrow> (path \<times> path list) list" where
  "push_back k x m = put k (neighbors m k @ [x]) m"

definition addEdge :: "path \<Rightarrow> path \<Rightarrow> graph \<Rightarrow> graph" where
  "addEdge source destination g =
     push_back source destination (addVertex destination (addVertex source g))"

text \<open>The store's representation invariant: keys strictly increasing.\<close>

definition ordered_store :: "(path \<times> 'v) list \<Rightarrow> bool" where
  "ordered_store m = sorted_wrt (<) (map fst m)"

subsection \<open>Facts about the store\<close>

lemma map_of_put: "map_of (put k v m) = (map_of m)(k \<mapsto> v)"
  by (induction m) (auto simp: fun_eq_iff)

lemma fst_set_put: "fst ` set (put k v m) = insert k (fst ` set m)"
  by (induction m) force+

lemma length_put_new: "k \<notin> fst ` set m \<Longrightarrow> length (put k v m) = Suc (length m)"
  by (induction m) auto

lemma ordered_put: "ordered_store m \<Longrightarrow> ordered_store (put k v m)"
  unfolding ordered_store_def
proof (induction m)
  case Nil
  then show ?case by simp
next
  case (Cons x m)
  obtain k' v' where x: "x = (k', v')" by (cases x)
  have "\<forall>y \<in> fst ` set (put k v m). k' < y" if "k' < k"
    using that Cons.prems by (auto simp: fst_set_put x)
  with Cons show ?case by (auto simp: x)
qed

lemma has_vertex_iff: "has_vertex g p \<longleftrightarrow> p \<in> fst ` set g"
  by (simp add: has_vertex_def map_of_eq_None_iff)

lemma has_vertex_put: "has_vertex (put k v g) p \<longleftrightarrow> p = k \<or> has_vertex g p"
  by (simp add: has_vertex_def map_of_put)

lemma neighbors_put: "neighbors (put k v m) p = (if p = k then v else neighbors m p)"
  by (simp add: neighbors_def map_of_put)

lemma has_vertex_addVertex: "has_vertex (addVertex p g) q \<longleftrightarrow> q = p \<or> has_vertex g q"
  by (auto simp: addVertex_def has_vertex_put)

lemma neighbors_addVertex: "neighbors (addVertex p g) q = neighbors g q"
  by (auto simp: addVertex_def neighbors_def has_vertex_def map_of_put)

lemma ordered_addVertex: "ordered_store g \<Longrightarrow> ordered_store (addVertex p g)"
  by (simp add: addVertex_def ordered_put)

lemma ordered_addEdge: "ordered_store g \<Longrightarrow> ordered_store (addEdge a b g)"
  by (simp add: addEdge_def push_back_def ordered_put ordered_addVertex)

lemma has_vertex_addEdge: "has_vertex (addEdge a b g) q \<longleftrightarrow> q = a \<or> q = b \<or> has_vertex g q"
  by (auto simp: addEdge_def push_back_def has_vertex_put has_vertex_addVertex)

lemma neighbors_addEdge:
  "neighbors (addEdge a b g) q = (if q = a then neighbors g a @ [b] else neighbors g q)"
  by (simp add: addEdge_def push_back_def neighbors_put neighbors_addVertex)

section \<open>Undefined behaviour\<close>

text \<open>
  Two places of the source have no defined behaviour for some inputs: dereferencing
  \<^verbatim>\<open>adjList.begin()\<close> of an empty map, and \<^verbatim>\<open>distances[current] + 1\<close> when the
  distance is \<^verbatim>\<open>std::numeric_limits<int>::max()\<close>. The model stops there with a value
  that says which one was reached; nothing is assumed about what a compiled program does
  afterwards.
\<close>

datatype undefined_behaviour = DereferenceOfEnd | SignedOverflow

section \<open>The spanning tree\<close>

text \<open>
  \<^verbatim>\<open>std::priority_queue<std::pair<int, fs::path>, ..., std::greater<>>\<close>: the top is the
  least pair. The queue is kept as the increasing list of its elements: \<^verbatim>\<open>push\<close> is
  \<open>insort\<close>, \<^verbatim>\<open>top\<close> the head, \<^verbatim>\<open>pop\<close> the tail.

  The inner loop:
  \<^verbatim>\<open>
  for (const auto& neighbor : adjList[current]) {
      if (!visited.count(neighbor)) {
          tree[current].push_back(neighbor);
          pq.push({1, neighbor});
      }
  }
  \<close>
\<close>

fun scan_neighbors ::
  "path set \<Rightarrow> path \<Rightarrow> path list \<Rightarrow> graph \<times> (int \<times> path) list \<Rightarrow> graph \<times> (int \<times> path) list"
where
  "scan_neighbors visited current [] (tree, pq) = (tree, pq)"
| "scan_neighbors visited current (neighbor # rest) (tree, pq) =
     (if neighbor \<notin> visited
      then scan_neighbors visited current rest
             (push_back current neighbor tree, insort (1, neighbor) pq)
      else scan_neighbors visited current rest (tree, pq))"

text \<open>Every path that occurs in the store, as a key or in a neighbour list.\<close>

definition all_nodes :: "graph \<Rightarrow> path set" where
  "all_nodes g = fst ` set g \<union> (\<Union>(k, ns) \<in> set g. set ns)"

lemma finite_all_nodes: "finite (all_nodes g)"
  by (auto simp: all_nodes_def)

lemma neighbors_all_nodes: "set (neighbors g v) \<subseteq> all_nodes g"
proof (cases "map_of g v")
  case None
  then show ?thesis by (simp add: neighbors_def)
next
  case (Some ns)
  then have "(v, ns) \<in> set g" by (rule map_of_SomeD)
  then have "set ns \<subseteq> all_nodes g" by (auto simp: all_nodes_def)
  with Some show ?thesis by (simp add: neighbors_def)
qed

lemma scan_neighbors_queue:
  "scan_neighbors visited current ns (tree, pq) = (tree', pq') \<Longrightarrow>
   snd ` set pq' \<subseteq> snd ` set pq \<union> set ns"
proof (induction ns arbitrary: tree pq)
  case Nil
  then show ?case by simp
next
  case (Cons n ns)
  show ?case
  proof (cases "n \<in> visited")
    case True
    with Cons.prems have "scan_neighbors visited current ns (tree, pq) = (tree', pq')"
      by simp
    from Cons.IH[OF this] show ?thesis by auto
  next
    case False
    with Cons.prems have
      "scan_neighbors visited current ns (push_back current n tree, insort (1, n) pq) = (tree', pq')"
      by simp
    from Cons.IH[OF this] show ?thesis by (auto simp: set_insort_key)
  qed
qed

text \<open>
  The outer loop:
  \<^verbatim>\<open>
  while (!pq.empty()) {
      fs::path current = pq.top().second;
      pq.pop();
      if (visited.count(current)) { continue; }
      visited.insert(current);
      for (...) { ... }
  }
  \<close>
\<close>

function mst_loop :: "graph \<Rightarrow> path set \<Rightarrow> (int \<times> path) list \<Rightarrow> graph \<Rightarrow> graph" where
  "mst_loop g visited [] tree = tree"
| "mst_loop g visited ((w, current) # pq) tree =
     (if current \<in> visited then mst_loop g visited pq tree
      else case scan_neighbors (insert current visited) current (neighbors g current) (tree, pq) of
             (tree', pq') \<Rightarrow> mst_loop g (insert current visited) pq' tree')"
  by pat_completeness auto
termination
proof (relation "measures
    [\<lambda>(g, visited, pq, tree). card ((all_nodes g \<union> snd ` set pq) - visited),
     \<lambda>(g, visited, pq, tree). length pq]", goal_cases)
  case 1
  show ?case by simp
next
  case (2 g visited w current pq tree)
  then have "(all_nodes g \<union> snd ` set pq) - visited
      = (all_nodes g \<union> snd ` set ((w, current) # pq)) - visited"
    by auto
  then show ?case by simp
next
  case (3 g visited w current pq tree tree' pq')
  then have scan:
    "scan_neighbors (insert current visited) current (neighbors g current) (tree, pq) = (tree', pq')"
    by simp
  let ?old = "(all_nodes g \<union> snd ` set ((w, current) # pq)) - visited"
  let ?new = "(all_nodes g \<union> snd ` set pq') - insert current visited"
  have "snd ` set pq' \<subseteq> snd ` set pq \<union> all_nodes g"
    using scan_neighbors_queue[OF scan] neighbors_all_nodes[of g current] by blast
  then have "?new \<subseteq> ?old - {current}" by auto
  moreover have "current \<in> ?old" using 3 by simp
  ultimately have "?new \<subset> ?old" by blast
  moreover have "finite ?old" by (simp add: finite_all_nodes)
  ultimately have "card ?new < card ?old" by (rule psubset_card_mono[rotated])
  then show ?case by simp
qed

text \<open>
  \<^verbatim>\<open>
  fs::path start = adjList.begin()->first;
  pq.push({0, start});
  \<close>
  On the empty map \<^verbatim>\<open>begin()\<close> is \<^verbatim>\<open>end()\<close>, and the source dereferences it.
\<close>

definition minSpanTree :: "graph \<Rightarrow> undefined_behaviour + graph" where
  "minSpanTree g =
     (case g of
        [] \<Rightarrow> Inl DereferenceOfEnd
      | (start, _) # _ \<Rightarrow> Inr (mst_loop g {} (insort (0, start) []) []))"

section \<open>The shortest path\<close>

text \<open>
  \<^verbatim>\<open>std::map<fs::path, int> distances\<close> and \<^verbatim>\<open>std::map<fs::path, fs::path> previous\<close>
  are read and written through \<^verbatim>\<open>operator[]\<close> only, which gives a missing key the
  value \<^verbatim>\<open>0\<close>, respectively the empty path. They are total functions with these
  values where nothing was stored. \<^verbatim>\<open>std::set<fs::path> unvisited\<close> is the increasing
  list of its elements.
\<close>

definition INT_MAX :: int where
  "INT_MAX = 2147483647"

fun set_insert :: "path \<Rightarrow> path list \<Rightarrow> path list" where
  "set_insert k [] = [k]"
| "set_insert k (k' # s) =
     (if k < k' then k # k' # s else if k = k' then k' # s else k' # set_insert k s)"

text \<open>
  \<^verbatim>\<open>
  for (const auto& pair : adjList) {
      distances[pair.first] = std::numeric_limits<int>::max();
      previous[pair.first] = "";
      unvisited.insert(pair.first);
  }
  \<close>
\<close>

fun init_tables ::
  "graph \<Rightarrow> (path \<Rightarrow> int) \<times> (path \<Rightarrow> path) \<times> path list \<Rightarrow> (path \<Rightarrow> int) \<times> (path \<Rightarrow> path) \<times> path list"
where
  "init_tables [] tables = tables"
| "init_tables ((k, ns) # rest) (distances, previous, unvisited) =
     init_tables rest
       (distances(k := INT_MAX), previous(k := empty_path), set_insert k unvisited)"

text \<open>
  \<^verbatim>\<open>
  fs::path current = *unvisited.begin();
  for (const auto& path : unvisited) {
      if (distances[path] < distances[current]) { current = path; }
  }
  \<close>
  \<open>pick distances first unvisited\<close> is the scan started with \<open>current = first\<close>.
\<close>

fun pick :: "(path \<Rightarrow> int) \<Rightarrow> path \<Rightarrow> path list \<Rightarrow> path" where
  "pick distances current [] = current"
| "pick distances current (p # ps) =
     pick distances (if distances p < distances current then p else current) ps"

text \<open>
  \<^verbatim>\<open>
  for (const auto& neighbor : adjList[current]) {
      int alt = distances[current] + 1;
      if (alt < distances[neighbor]) {
          distances[neighbor] = alt;
          previous[neighbor] = current;
      }
  }
  \<close>
  The addition overflows when \<^verbatim>\<open>distances[current]\<close> is the largest \<^verbatim>\<open>int\<close>.
\<close>

fun relax ::
  "path \<Rightarrow> path list \<Rightarrow> (path \<Rightarrow> int) \<times> (path \<Rightarrow> path) \<Rightarrow>
   undefined_behaviour + (path \<Rightarrow> int) \<times> (path \<Rightarrow> path)"
where
  "relax current [] (distances, previous) = Inr (distances, previous)"
| "relax current (neighbor # rest) (distances, previous) =
     (if distances current = INT_MAX then Inl SignedOverflow
      else let alt = distances current + 1 in
        if alt < distances neighbor
        then relax current rest (distances(neighbor := alt), previous(neighbor := current))
        else relax current rest (distances, previous))"

text \<open>The vertex picked is one of the unvisited ones, so the main loop ends.\<close>

lemma pick_mem: "pick d c ps \<in> insert c (set ps)"
  by (induction ps arbitrary: c) (auto split: if_splits)

text \<open>
  \<^verbatim>\<open>
  while (!unvisited.empty()) {
      (pick current)
      if (current == destination) { break; }
      unvisited.erase(current);
      (relax the neighbours of current)
  }
  \<close>
\<close>

function dijkstra_loop ::
  "graph \<Rightarrow> path \<Rightarrow> path list \<Rightarrow> (path \<Rightarrow> int) \<Rightarrow> (path \<Rightarrow> path) \<Rightarrow>
   undefined_behaviour + (path \<Rightarrow> int) \<times> (path \<Rightarrow> path)"
where
  "dijkstra_loop g destination [] distances previous = Inr (distances, previous)"
| "dijkstra_loop g destination (first # others) distances previous =
     (let current = pick distances first (first # others) in
      if current = destination then Inr (distances, previous)
      else case relax current (neighbors g current) (distances, previous) of
             Inl ub \<Rightarrow> Inl ub
           | Inr (distances', previous') \<Rightarrow>
               dijkstra_loop g destination (remove1 current (first # others))
                 distances' previous')"
  by pat_completeness auto
termination
proof (relation "measure (\<lambda>(g, destination, unvisited, distances, previous). length unvisited)",
    goal_cases)
  case 1
  show ?case by simp
next
  case (2 g destination first others distances previous current)
  then have "current \<in> set (first # others)"
    using pick_mem[of distances first "first # others"] by auto
  then have "length (remove1 current (first # others)) < length (first # others)"
    by (cases "current = first") (auto simp: length_remove1 dest: length_pos_if_in_set)
  then show ?case by simp
qed

text \<open>
  \<^verbatim>\<open>
  for (fs::path p = destination; p != ""; p = previous[p]) { path.push_back(p); }
  \<close>
  Nothing in the loop itself bounds it, so it is a partial function: \<open>None\<close> is the
  loop that never ends.
\<close>

partial_function (option) walk_back ::
  "(path \<Rightarrow> path) \<Rightarrow> path \<Rightarrow> path list \<Rightarrow> path list option"
where
  "walk_back previous p path =
     (if p \<noteq> empty_path then walk_back previous (previous p) (path @ [p]) else Some path)"

lemma walk_back_stop: "walk_back previous empty_path path = Some path"
  by (subst walk_back.simps) simp

lemma walk_back_step:
  "p \<noteq> empty_path \<Longrightarrow> walk_back previous p path = walk_back previous (previous p) (path @ [p])"
  by (subst walk_back.simps) simp

text \<open>
  \<^verbatim>\<open>shortestPath\<close>: the tables, \<^verbatim>\<open>distances[source] = 0\<close>, the main loop, the walk back
  from the destination and \<^verbatim>\<open>std::reverse\<close>. The outcome is \<open>Some (Inr path)\<close> for
  the vector returned, \<open>Some (Inl ub)\<close> when undefined behaviour was reached.
\<close>

definition shortestPath ::
  "graph \<Rightarrow> path \<Rightarrow> path \<Rightarrow> (undefined_behaviour + path list) option" where
  "shortestPath g source destination =
     (case init_tables g (\<lambda>p. 0, \<lambda>p. empty_path, []) of
        (distances, previous, unvisited) \<Rightarrow>
          (case dijkstra_loop g destination unvisited (distances(source := 0)) previous of
             Inl ub \<Rightarrow> Some (Inl ub)
           | Inr (distances', previous') \<Rightarrow>
               map_option (\<lambda>path. Inr (rev path)) (walk_back previous' destination [])))"


section \<open>Facts about the loops of the spanning tree\<close>

lemma scan_neighbors_unvisited:
  "set ns \<inter> visited = {} \<Longrightarrow>
   scan_neighbors visited c ns (t, q) = (t', q') \<Longrightarrow>
   neighbors t' c = neighbors t c @ ns \<and> (\<forall>v. v \<noteq> c \<longrightarrow> neighbors t' v = neighbors t v)
     \<and> snd ` set q' = snd ` set q \<union> set ns"
proof (induction ns arbitrary: t q)
  case Nil
  then show ?case by simp
next
  case (Cons n ns)
  from Cons.prems have n: "n \<notin> visited" and ns: "set ns \<inter> visited = {}" by auto
  with Cons.prems have
    "scan_neighbors visited c ns (push_back c n t, insort (1, n) q) = (t', q')" by simp
  from Cons.IH[OF ns this] show ?case
    by (auto simp: push_back_def neighbors_put set_insort_key)
qed

text \<open>A queue whose vertices are all visited or without neighbours adds nothing.\<close>

lemma mst_loop_leaves:
  "\<forall>(w, v) \<in> set q. v \<in> visited \<or> neighbors g v = [] \<Longrightarrow> mst_loop g visited q t = t"
proof (induction g visited q t rule: mst_loop.induct)
  case (1 g visited tree)
  then show ?case by simp
next
  case (2 g visited w current pq tree)
  show ?case
  proof (cases "current \<in> visited")
    case True
    with 2 show ?thesis by simp
  next
    case False
    with "2.prems" have nb: "neighbors g current = []" by auto
    have scan: "(tree, pq) =
        scan_neighbors (insert current visited) current (neighbors g current) (tree, pq)"
      using nb by simp
    have "\<forall>(w, v) \<in> set pq. v \<in> insert current visited \<or> neighbors g v = []"
      using "2.prems" by auto
    then have "mst_loop g (insert current visited) pq tree = tree"
      by (rule "2.IH"(2)[OF False scan])
    with False nb show ?thesis by simp
  qed
qed

section \<open>The paths of the examples\<close>

text \<open>
  \<open>file_name ''A''\<close> is \<^verbatim>\<open>fs::path("A")\<close>: one file name, no root.
  \<open>below_root [''r'', ''file'']\<close> is \<^verbatim>\<open>fs::path("/r/file")\<close>.
\<close>

abbreviation file_name :: "string \<Rightarrow> path" where
  "file_name name \<equiv> Path [] False [name]"

abbreviation below_root :: "string list \<Rightarrow> path" where
  "below_root names \<equiv> Path [] True names"

abbreviation A :: path where "A \<equiv> file_name ''A''"
abbreviation B :: path where "B \<equiv> file_name ''B''"
abbreviation C :: path where "C \<equiv> file_name ''C''"
abbreviation D :: path where "D \<equiv> file_name ''D''"
abbreviation R :: path where "R \<equiv> file_name ''R''"

abbreviation r_dir :: path where "r_dir \<equiv> below_root [''r'']"
abbreviation r_a :: path where "r_a \<equiv> below_root [''r'', ''a'']"
abbreviation r_b :: path where "r_b \<equiv> below_root [''r'', ''b'']"
abbreviation r_locked :: path where "r_locked \<equiv> below_root [''r'', ''locked'']"
abbreviation r_file :: path where "r_file \<equiv> below_root [''r'', ''file'']"
abbreviation r_docs :: path where "r_docs \<equiv> below_root [''r'', ''docs'']"
abbreviation r_docs_a :: path where "r_docs_a \<equiv> below_root [''r'', ''docs'', ''a'']"
abbreviation nowhere :: path where "nowhere \<equiv> below_root [''nowhere'']"

section \<open>Properties of the graph store\<close>

text \<open>
  C7. \<^verbatim>\<open>addEdge(a, b)\<close> has no failing outcome (it is a total function from graphs to
  graphs); afterwards \<open>a\<close> and \<open>b\<close> are vertices, and the neighbour list of \<open>a\<close> is the
  old one with \<open>b\<close> appended, so \<open>b\<close> occurs in it exactly once more than before: an edge
  that is already there is added again.
\<close>

theorem addEdge_appends_neighbor:
  "has_vertex (addEdge a b g) a \<and> has_vertex (addEdge a b g) b
   \<and> neighbors (addEdge a b g) a = neighbors g a @ [b]
   \<and> count_list (neighbors (addEdge a b g) a) b = count_list (neighbors g a) b + 1"
  by (simp add: has_vertex_addEdge neighbors_addEdge)

text \<open>
  C8, as the claim has it, fails for a path that is already a vertex: adding \<^verbatim>\<open>"A"\<close>
  twice to the graph whose only vertex is \<^verbatim>\<open>"A"\<close> leaves one vertex, not two.
\<close>

theorem addVertex_twice_counterexample:
  "vertex_count (addVertex A (addVertex A (addVertex A [])))
     \<noteq> vertex_count (addVertex A []) + 1"
  by (simp add: addVertex_def has_vertex_def vertex_count_def)

text \<open>
  C8, amended. Calling \<^verbatim>\<open>addVertex(p)\<close> twice in succession increases the number of
  vertices by exactly 1 when \<open>p\<close> was not a vertex, and by 0 when it was; the second call
  changes nothing, and one call grows the vertex set by at most one.
\<close>

theorem addVertex_idempotent:
  "vertex_count (addVertex p (addVertex p g))
     = (if has_vertex g p then vertex_count g else vertex_count g + 1)
   \<and> addVertex p (addVertex p g) = addVertex p g
   \<and> vertex_count (addVertex p g) \<le> vertex_count g + 1"
proof -
  have again: "addVertex p (addVertex p g) = addVertex p g"
    by (simp add: addVertex_def has_vertex_put)
  have once: "vertex_count (addVertex p g)
      = (if has_vertex g p then vertex_count g else vertex_count g + 1)"
    by (simp add: addVertex_def vertex_count_def has_vertex_iff length_put_new)
  from again once show ?thesis by simp
qed

section \<open>Properties of the spanning tree\<close>

text \<open>
  C2. On the empty graph \<^verbatim>\<open>minSpanTree\<close> reaches \<^verbatim>\<open>adjList.begin()->first\<close> with
  \<^verbatim>\<open>begin() == end()\<close>: the dereference the claim excludes. There is no check of
  \<^verbatim>\<open>adjList.empty()\<close> before it.
\<close>

theorem minSpanTree_empty_graph:
  "minSpanTree [] = Inl DereferenceOfEnd"
  by (simp add: minSpanTree_def)

text \<open>
  C3, as the claim has it, fails when the root is not the first key of the store: the
  star with root \<^verbatim>\<open>"R"\<close> and the one child \<^verbatim>\<open>"A"\<close> starts at \<^verbatim>\<open>"A"\<close>, which has no
  neighbours, and the tree returned is the empty map, where the root has no child.
\<close>

theorem minSpanTree_star_counterexample:
  "neighbors (addEdge R A []) R = [A]
   \<and> neighbors (addEdge R A []) A = []
   \<and> minSpanTree (addEdge R A []) = Inr []"
  by (simp add: addEdge_def addVertex_def push_back_def has_vertex_def neighbors_def
      minSpanTree_def)

text \<open>
  C3, amended. Take any star graph: the root is a vertex with the children \<open>cs\<close>, it
  is not its own child, and no other vertex has a neighbour. When the root is the first
  key of the store, as it is when the children are paths below the root,
  \<^verbatim>\<open>minSpanTree\<close> returns a tree in which the root has exactly the children \<open>cs\<close>, so
  as many as in the graph. When another vertex is the first key, the traversal starts
  there and the tree returned is the empty map: the root has no child. In both cases no
  vertex other than the root has a child.
\<close>

theorem minSpanTree_star:
  assumes root: "has_vertex g root"
    and children: "neighbors g root = cs" "root \<notin> set cs"
    and leaves: "\<forall>v. v \<noteq> root \<longrightarrow> neighbors g v = []"
  shows "\<exists>t. minSpanTree g = Inr t
           \<and> (if fst (hd g) = root
               then neighbors t root = cs \<and> length (neighbors t root) = length cs
               else t = [])
           \<and> (\<forall>v. v \<noteq> root \<longrightarrow> neighbors t v = [])"
proof -
  from root obtain start ns rest where g: "g = (start, ns) # rest"
    by (cases g) (auto simp: has_vertex_def)
  show ?thesis
  proof (cases "start = root")
    case True
    obtain t1 q1 where scan: "scan_neighbors {root} root cs ([], []) = (t1, q1)"
      by (cases "scan_neighbors {root} root cs ([], [])")
    have "set cs \<inter> {root} = {}" using children by simp
    from scan_neighbors_unvisited[OF this scan]
    have t1: "neighbors t1 root = cs" "\<forall>v. v \<noteq> root \<longrightarrow> neighbors t1 v = []"
      and q1: "snd ` set q1 = set cs"
      by (simp_all add: neighbors_def)
    have "\<forall>(w, v) \<in> set q1. v \<in> {root} \<or> neighbors g v = []"
      using q1 leaves children by force
    then have "mst_loop g {root} q1 t1 = t1" by (rule mst_loop_leaves)
    then have "minSpanTree g = Inr t1"
      using scan children True by (simp add: minSpanTree_def g)
    with t1 True show ?thesis by (simp add: g)
  next
    case False
    with leaves have "neighbors g start = []" by simp
    then have "minSpanTree g = Inr []"
      by (simp add: minSpanTree_def g)
    moreover have "\<forall>v. neighbors [] v = []" by (simp add: neighbors_def)
    ultimately show ?thesis using False by (simp add: g)
  qed
qed

theorem minSpanTree_star_witness:
  "has_vertex (addEdge r_dir r_b (addEdge r_dir r_a [])) r_dir
   \<and> fst (hd (addEdge r_dir r_b (addEdge r_dir r_a []))) = r_dir
   \<and> (\<exists>t. minSpanTree (addEdge r_dir r_b (addEdge r_dir r_a [])) = Inr t
          \<and> neighbors t r_dir = [r_a, r_b] \<and> length (neighbors t r_dir) = 2)
   \<and> has_vertex (addEdge R A []) R
   \<and> fst (hd (addEdge R A [])) = A
   \<and> (\<exists>t. minSpanTree (addEdge R A []) = Inr t \<and> t = [])"
proof -
  let ?g = "addEdge r_dir r_b (addEdge r_dir r_a [])"
  have g: "?g = [(r_dir, [r_a, r_b]), (r_a, []), (r_b, [])]"
    by (simp add: addEdge_def addVertex_def push_back_def has_vertex_def neighbors_def)
  have 1: "has_vertex ?g r_dir" "fst (hd ?g) = r_dir"
    by (simp_all add: g has_vertex_def)
  have 2: "neighbors ?g r_dir = [r_a, r_b]" "r_dir \<notin> set [r_a, r_b]"
    by (simp_all add: g neighbors_def)
  have 3: "\<forall>v. v \<noteq> r_dir \<longrightarrow> neighbors ?g v = []"
    by (simp add: g neighbors_def)
  let ?h = "addEdge R A []"
  have h: "?h = [(A, []), (R, [A])]"
    by (simp add: addEdge_def addVertex_def push_back_def has_vertex_def neighbors_def)
  have 4: "has_vertex ?h R" "fst (hd ?h) = A" "fst (hd ?h) \<noteq> R"
    by (simp_all add: h has_vertex_def)
  have 5: "neighbors ?h R = [A]" "R \<notin> set [A]"
    by (simp_all add: h neighbors_def)
  have 6: "\<forall>v. v \<noteq> R \<longrightarrow> neighbors ?h v = []"
    by (simp add: h neighbors_def)
  from minSpanTree_star[OF 1(1) 2 3] minSpanTree_star[OF 4(1) 5 6] 1 4
  show ?thesis by auto
qed

text \<open>
  C10. On the diamond with the edges A\<rightarrow>B, A\<rightarrow>C, B\<rightarrow>D, C\<rightarrow>D the mapping returned
  lists D as a child of B and as a child of C: D is still unvisited (only queued) when
  the neighbours of C are scanned. So the result is not always a tree.
\<close>

definition diamond :: graph where
  "diamond =
     addEdge C D (addEdge B D (addEdge A C (addEdge A B [])))"

theorem minSpanTree_diamond_two_parents:
  "minSpanTree diamond = Inr [(A, [B, C]), (B, [D]), (C, [D])]
   \<and> D \<in> set (neighbors [(A, [B, C]), (B, [D]), (C, [D])] B)
   \<and> D \<in> set (neighbors [(A, [B, C]), (B, [D]), (C, [D])] C)
   \<and> B \<noteq> C"
proof -
  have g: "diamond = [(A, [B, C]), (B, [D]), (C, [D]), (D, [])]"
    by (simp add: diamond_def addEdge_def addVertex_def push_back_def has_vertex_def
        neighbors_def)
  show ?thesis
    by (simp add: g minSpanTree_def push_back_def neighbors_def)
qed

section \<open>Facts about the loops of the shortest path\<close>

lemma set_set_insert: "set (set_insert k s) = insert k (set s)"
  by (induction s) auto

lemma init_tables_result:
  "init_tables g (d, pr, u) = (d', pr', u') \<Longrightarrow>
   d' = (\<lambda>p. if p \<in> fst ` set g then INT_MAX else d p)
   \<and> pr' = (\<lambda>p. if p \<in> fst ` set g then empty_path else pr p)
   \<and> set u' = set u \<union> fst ` set g"
proof (induction g arbitrary: d pr u)
  case Nil
  then show ?case by simp
next
  case (Cons x g)
  obtain k ns where x: "x = (k, ns)" by (cases x)
  from Cons.prems have
    "init_tables g (d(k := INT_MAX), pr(k := empty_path), set_insert k u) = (d', pr', u')"
    by (simp add: x)
  from Cons.IH[OF this] show ?case
    by (auto simp: x set_set_insert fun_eq_iff)
qed

lemma pick_unique_min:
  "m \<in> insert c (set ps) \<Longrightarrow> \<forall>x \<in> insert c (set ps). x \<noteq> m \<longrightarrow> d m < d x \<Longrightarrow>
   pick d c ps = m"
proof (induction ps arbitrary: c)
  case Nil
  then show ?case by simp
next
  case (Cons p ps)
  let ?c = "if d p < d c then p else c"
  have "m \<in> insert ?c (set ps)"
    using Cons.prems by (auto split: if_splits)
  moreover have "\<forall>x \<in> insert ?c (set ps). x \<noteq> m \<longrightarrow> d m < d x"
    using Cons.prems by auto
  ultimately have "pick d ?c ps = m" by (rule Cons.IH)
  then show ?case by simp
qed


definition descending :: "(path \<Rightarrow> int) \<Rightarrow> (path \<Rightarrow> path) \<Rightarrow> bool" where
  "descending distances previous =
     ((\<forall>n. 0 \<le> distances n)
      \<and> (\<forall>n. previous n \<noteq> empty_path \<longrightarrow> distances (previous n) < distances n))"


lemma relax_descending:
  "descending d pr \<Longrightarrow> relax c ns (d, pr) = Inr (d', pr') \<Longrightarrow> descending d' pr'"
proof (induction ns arbitrary: d pr)
  case Nil
  then show ?case by simp
next
  case (Cons n ns)
  from Cons.prems(2) have no: "d c \<noteq> INT_MAX" by (auto split: if_splits)
  show ?case
  proof (cases "d c + 1 < d n")
    case True
    have "descending (d(n := d c + 1)) (pr(n := c))"
      unfolding descending_def
    proof (intro conjI allI impI)
      fix m
      show "0 \<le> (d(n := d c + 1)) m"
        using Cons.prems(1) by (auto simp: descending_def intro: add_nonneg_nonneg)
    next
      fix m
      assume m: "(pr(n := c)) m \<noteq> empty_path"
      show "(d(n := d c + 1)) ((pr(n := c)) m) < (d(n := d c + 1)) m"
      proof (cases "m = n")
        case True
        with \<open>d c + 1 < d n\<close> show ?thesis by auto
      next
        case False
        with m have "d (pr m) < d m" using Cons.prems(1) by (simp add: descending_def)
        with False \<open>d c + 1 < d n\<close> show ?thesis by auto
      qed
    qed
    moreover have "relax c ns (d(n := d c + 1), pr(n := c)) = Inr (d', pr')"
      using Cons.prems(2) no True by (simp add: Let_def)
    ultimately show ?thesis by (rule Cons.IH)
  next
    case False
    then have "relax c ns (d, pr) = Inr (d', pr')"
      using Cons.prems(2) no by (simp add: Let_def)
    with Cons.prems(1) show ?thesis by (rule Cons.IH)
  qed
qed

lemma dijkstra_loop_invariant:
  "(\<And>c d pr d' pr'. I d pr \<Longrightarrow> relax c (neighbors g c) (d, pr) = Inr (d', pr') \<Longrightarrow> I d' pr') \<Longrightarrow>
   I d pr \<Longrightarrow> dijkstra_loop g dest u d pr = Inr (d', pr') \<Longrightarrow> I d' pr'"
proof (induction g dest u d pr rule: dijkstra_loop.induct)
  case (1 g destination distances previous)
  then show ?case by simp
next
  case (2 g destination first others distances previous)
  let ?c = "pick distances first (first # others)"
  show ?case
  proof (cases "?c = destination")
    case True
    with "2.prems" show ?thesis by (simp add: Let_def)
  next
    case False
    show ?thesis
    proof (cases "relax ?c (neighbors g ?c) (distances, previous)")
      case (Inl ub)
      with False "2.prems" show ?thesis by (simp add: Let_def)
    next
      case (Inr b)
      obtain d1 pr1 where b: "b = (d1, pr1)" by (cases b)
      have "I d1 pr1" using "2.prems"(1)[OF "2.prems"(2)] Inr b by blast
      moreover have "dijkstra_loop g destination (remove1 ?c (first # others)) d1 pr1 = Inr (d', pr')"
        using "2.prems"(3) False Inr b by (simp add: Let_def)
      ultimately show ?thesis
        using "2.IH"[OF refl False Inr b[symmetric]] "2.prems"(1) by blast
    qed
  qed
qed




lemma walk_back_total:
  "descending d pr \<Longrightarrow> walk_back pr p acc \<noteq> None"
proof (induction "nat (d p)" arbitrary: p acc rule: less_induct)
  case less
  show ?case
  proof (cases "p = empty_path")
    case True
    then show ?thesis by (simp add: walk_back_stop)
  next
    case False
    note p = this
    show ?thesis
    proof (cases "pr p = empty_path")
      case True
      with p show ?thesis by (simp add: walk_back_step walk_back_stop)
    next
      case False
      with less.prems have "d (pr p) < d p" "0 \<le> d (pr p)" by (simp_all add: descending_def)
      then have "nat (d (pr p)) < nat (d p)" by simp
      from less.hyps[OF this less.prems] p show ?thesis by (simp add: walk_back_step)
    qed
  qed
qed




text \<open>The walk back ends for the tables of every run: \<^verbatim>\<open>shortestPath\<close> returns.\<close>

lemma shortestPath_returns: "\<exists>r. shortestPath g source destination = Some r"
proof -
  obtain d0 pr0 u where init: "init_tables g (\<lambda>p. 0, \<lambda>p. empty_path, []) = (d0, pr0, u)"
    by (cases "init_tables g (\<lambda>p. 0, \<lambda>p. empty_path, [])")
  from init_tables_result[OF init]
  have "d0 = (\<lambda>p. if p \<in> fst ` set g then INT_MAX else 0)" and "pr0 = (\<lambda>p. empty_path)"
    by (auto simp: fun_eq_iff)
  then have start: "descending (d0(source := 0)) pr0"
    by (simp add: descending_def INT_MAX_def)
  show ?thesis
  proof (cases "dijkstra_loop g destination u (d0(source := 0)) pr0")
    case (Inl ub)
    then show ?thesis by (simp add: shortestPath_def init)
  next
    case (Inr b)
    obtain d pr where b: "b = (d, pr)" by (cases b)
    have loop: "dijkstra_loop g destination u (d0(source := 0)) pr0 = Inr (d, pr)"
      using Inr b by simp
    have "descending d pr"
      by (rule dijkstra_loop_invariant[where I = descending, OF _ start loop])
         (rule relax_descending)
    from walk_back_total[OF this] obtain r where "walk_back pr destination [] = Some r"
      by blast
    then show ?thesis by (simp add: shortestPath_def init loop)
  qed
qed

section \<open>Properties of the shortest path\<close>




text \<open>
  C9, as the claim has it, fails for the empty path, which can be a vertex
  (\<^verbatim>\<open>addVertex("")\<close>) and is also what \<^verbatim>\<open>previous\<close> holds for "no predecessor": the walk
  back from the destination \<^verbatim>\<open>""\<close> stops before its first step, and the sequence
  returned is empty.
\<close>

theorem shortestPath_self_counterexample:
  "has_vertex (addVertex empty_path []) empty_path
   \<and> shortestPath (addVertex empty_path []) empty_path empty_path = Some (Inr [])"
  by (simp add: addVertex_def has_vertex_def shortestPath_def empty_path_def Let_def
      walk_back_stop[unfolded empty_path_def])

text \<open>
  C9, amended. For every vertex \<open>v\<close> of the graph, \<^verbatim>\<open>shortestPath(v, v)\<close> returns the
  sequence with the one element \<open>v\<close>, no hop, when \<open>v\<close> is not the empty path, and the
  empty sequence when \<open>v\<close> is the empty path.
\<close>

theorem shortestPath_self:
  assumes "has_vertex g v"
  shows "shortestPath g v v = Some (Inr (if v = empty_path then [] else [v]))"
proof -
  obtain d pr u where init: "init_tables g (\<lambda>p. 0, \<lambda>p. empty_path, []) = (d, pr, u)"
    by (cases "init_tables g (\<lambda>p. 0, \<lambda>p. empty_path, [])")
  from init_tables_result[OF init]
  have d: "d = (\<lambda>p. if p \<in> fst ` set g then INT_MAX else 0)"
    and pr: "pr = (\<lambda>p. empty_path)" and u: "set u = fst ` set g"
    by (auto simp: fun_eq_iff)
  from assms u have vu: "v \<in> set u" by (simp add: has_vertex_iff)
  then obtain first others where uc: "u = first # others" by (cases u) auto
  have "pick (d(v := 0)) first (first # others) = v"
  proof (rule pick_unique_min)
    show "v \<in> insert first (set (first # others))" using vu uc by simp
    show "\<forall>x \<in> insert first (set (first # others)). x \<noteq> v \<longrightarrow> (d(v := 0)) v < (d(v := 0)) x"
      using u uc by (auto simp: d INT_MAX_def)
  qed
  then have loop: "dijkstra_loop g v u (d(v := 0)) pr = Inr (d(v := 0), pr)"
    by (simp add: uc)
  have "walk_back pr v [] = Some (if v = empty_path then [] else [v])"
    by (simp add: walk_back_step walk_back_stop pr)
  with loop show ?thesis
    by (simp add: shortestPath_def init)
qed

theorem shortestPath_self_witness:
  "has_vertex (addEdge A B []) B
   \<and> shortestPath (addEdge A B []) B B = Some (Inr [B])
   \<and> has_vertex (addEdge empty_path B []) empty_path
   \<and> shortestPath (addEdge empty_path B []) empty_path empty_path = Some (Inr [])"
proof -
  have 1: "has_vertex (addEdge A B []) B" by (simp add: has_vertex_addEdge)
  have 2: "has_vertex (addEdge empty_path B []) empty_path" by (simp add: has_vertex_addEdge)
  have 3: "B \<noteq> empty_path" by (simp add: empty_path_def)
  from shortestPath_self[OF 1] shortestPath_self[OF 2] 1 2 3 show ?thesis by simp
qed

subsection \<open>The chain\<close>

text \<open>
  When one unvisited vertex has a distance below all the others, the scan picks it,
  whatever the key order.
\<close>

lemma sorted_set_insert: "sorted_wrt (<) s \<Longrightarrow> sorted_wrt (<) (set_insert k s)"
proof (induction s)
  case Nil
  then show ?case by simp
next
  case (Cons x s)
  have "\<forall>y \<in> set (set_insert k s). x < y" if "x < k"
    using that Cons.prems by (auto simp: set_set_insert)
  with Cons show ?case by auto
qed

lemma init_tables_sorted:
  "init_tables g (d, pr, u) = (d', pr', u') \<Longrightarrow> sorted_wrt (<) u \<Longrightarrow> sorted_wrt (<) u'"
proof (induction g arbitrary: d pr u)
  case Nil
  then show ?case by simp
next
  case (Cons x g)
  obtain k ns where x: "x = (k, ns)" by (cases x)
  from Cons.prems(1) have
    "init_tables g (d(k := INT_MAX), pr(k := empty_path), set_insert k u) = (d', pr', u')"
    by (simp add: x)
  then show ?case using Cons.prems(2) by (rule Cons.IH[OF _ sorted_set_insert])
qed

lemma dijkstra_loop_min:
  assumes "m \<in> set u" and "\<forall>x \<in> set u. x \<noteq> m \<longrightarrow> d m < d x"
  shows "dijkstra_loop g dest u d pr =
     (if m = dest then Inr (d, pr)
      else case relax m (neighbors g m) (d, pr) of
             Inl ub \<Rightarrow> Inl ub
           | Inr (d', pr') \<Rightarrow> dijkstra_loop g dest (remove1 m u) d' pr')"
proof -
  from assms(1) obtain first others where u: "u = first # others" by (cases u) auto
  have "pick d first (first # others) = m"
    using assms by (intro pick_unique_min) (auto simp: u)
  then show ?thesis unfolding u by (simp add: Let_def)
qed

text \<open>
  C4. For the chain built by \<^verbatim>\<open>addEdge(A, B)\<close>, \<^verbatim>\<open>addEdge(B, C)\<close>, \<^verbatim>\<open>addEdge(C, D)\<close>,
  with four different vertices none of which is the empty path,
  \<^verbatim>\<open>shortestPath(A, D)\<close> returns the sequence A, B, C, D: four vertices, three hops.
\<close>

theorem shortestPath_chain:
  assumes dist: "distinct [a, b, c, d]" and ne: "empty_path \<notin> set [a, b, c, d]"
  shows "shortestPath (addEdge c d (addEdge b c (addEdge a b []))) a d = Some (Inr [a, b, c, d])
         \<and> length [a, b, c, d] = 4"
proof -
  let ?g = "addEdge c d (addEdge b c (addEdge a b []))"
  from dist have neq: "a \<noteq> b" "a \<noteq> c" "a \<noteq> d" "b \<noteq> a" "b \<noteq> c" "b \<noteq> d"
    "c \<noteq> a" "c \<noteq> b" "c \<noteq> d" "d \<noteq> a" "d \<noteq> b" "d \<noteq> c"
    by auto
  have nil: "\<And>v. neighbors [] v = []" by (simp add: neighbors_def)
  have na: "neighbors ?g a = [b]" and nb: "neighbors ?g b = [c]" and nc: "neighbors ?g c = [d]"
    using dist by (auto simp: neighbors_addEdge nil)
  have "\<And>q. \<not> has_vertex [] q" by (simp add: has_vertex_def)
  then have "\<And>q. has_vertex ?g q \<longleftrightarrow> q \<in> {a, b, c, d}"
    by (auto simp: has_vertex_addEdge)
  then have keys: "fst ` set ?g = {a, b, c, d}"
    unfolding has_vertex_iff by (intro set_eqI) simp
  obtain d0 pr0 u where init: "init_tables ?g (\<lambda>p. 0, \<lambda>p. empty_path, []) = (d0, pr0, u)"
    by (cases "init_tables ?g (\<lambda>p. 0, \<lambda>p. empty_path, [])")
  from init_tables_result[OF init] keys
  have d0: "d0 = (\<lambda>p. if p \<in> {a, b, c, d} then INT_MAX else 0)"
    and pr0: "pr0 = (\<lambda>p. empty_path)" and u: "set u = {a, b, c, d}"
    by (auto simp: fun_eq_iff)
  from init_tables_sorted[OF init] have du: "distinct u"
    by (simp add: strict_sorted_iff)
  define D1 where "D1 = d0(a := 0)"
  define D2 where "D2 = D1(b := 1)"
  define D3 where "D3 = D2(c := 2)"
  define D4 where "D4 = D3(d := 3)"
  define P2 where "P2 = pr0(b := a)"
  define P3 where "P3 = P2(c := b)"
  define P4 where "P4 = P3(d := c)"
  have r1: "relax a [b] (D1, pr0) = Inr (D2, P2)"
    using neq by (simp add: D1_def D2_def P2_def d0 INT_MAX_def Let_def)
  have r2: "relax b [c] (D2, P2) = Inr (D3, P3)"
    using neq by (simp add: D1_def D2_def D3_def P3_def d0 INT_MAX_def Let_def)
  have r3: "relax c [d] (D3, P3) = Inr (D4, P4)"
    using neq by (simp add: D1_def D2_def D3_def D4_def P4_def d0 INT_MAX_def Let_def)
  have m1: "\<forall>x \<in> set u. x \<noteq> a \<longrightarrow> D1 a < D1 x"
    using u by (auto simp: D1_def d0 INT_MAX_def)
  have s1: "dijkstra_loop ?g d u D1 pr0 = dijkstra_loop ?g d (remove1 a u) D2 P2"
    using neq u by (subst dijkstra_loop_min[where m = a, OF _ m1]) (simp_all add: na r1 del: relax.simps)
  have u1: "set (remove1 a u) = {b, c, d}" using du u neq by auto
  have m2: "\<forall>x \<in> set (remove1 a u). x \<noteq> b \<longrightarrow> D2 b < D2 x"
    using neq unfolding u1 by (auto simp: D1_def D2_def d0 INT_MAX_def)
  have s2: "dijkstra_loop ?g d (remove1 a u) D2 P2
      = dijkstra_loop ?g d (remove1 b (remove1 a u)) D3 P3"
    using neq u1 by (subst dijkstra_loop_min[where m = b, OF _ m2]) (simp_all add: nb r2 del: relax.simps)
  have u2: "set (remove1 b (remove1 a u)) = {c, d}" using du u1 neq by auto
  have m3: "\<forall>x \<in> set (remove1 b (remove1 a u)). x \<noteq> c \<longrightarrow> D3 c < D3 x"
    using neq unfolding u2 by (auto simp: D1_def D2_def D3_def d0 INT_MAX_def)
  have s3: "dijkstra_loop ?g d (remove1 b (remove1 a u)) D3 P3
      = dijkstra_loop ?g d (remove1 c (remove1 b (remove1 a u))) D4 P4"
    using neq u2 by (subst dijkstra_loop_min[where m = c, OF _ m3]) (simp_all add: nc r3 del: relax.simps)
  have u3: "set (remove1 c (remove1 b (remove1 a u))) = {d}" using du u2 neq by auto
  have m4: "\<forall>x \<in> set (remove1 c (remove1 b (remove1 a u))). x \<noteq> d \<longrightarrow> D4 d < D4 x"
    unfolding u3 by simp
  have s4: "dijkstra_loop ?g d (remove1 c (remove1 b (remove1 a u))) D4 P4 = Inr (D4, P4)"
    using u3 by (subst dijkstra_loop_min[where m = d, OF _ m4]) simp_all
  have loop: "dijkstra_loop ?g d u (d0(a := 0)) pr0 = Inr (D4, P4)"
    using s1 s2 s3 s4 by (simp add: D1_def)
  have P: "P4 d = c" "P4 c = b" "P4 b = a" "P4 a = empty_path"
    using neq by (auto simp: P4_def P3_def P2_def pr0)
  from ne have ne': "a \<noteq> empty_path" "b \<noteq> empty_path" "c \<noteq> empty_path" "d \<noteq> empty_path"
    by auto
  have "walk_back P4 d [] = Some [d, c, b, a]"
    by (simp add: walk_back_step ne' P walk_back_stop)
  then show ?thesis
    by (simp add: shortestPath_def init loop)
qed

theorem shortestPath_chain_witness:
  "distinct [A, B, C, D]
   \<and> shortestPath (addEdge C D (addEdge B C (addEdge A B []))) A D
       = Some (Inr [A, B, C, D])
   \<and> length [A, B, C, D] - 1 = 3"
proof -
  have 1: "distinct [A, B, C, D]" by simp
  have 2: "empty_path \<notin> set [A, B, C, D]" by (simp add: empty_path_def)
  from shortestPath_chain[OF 1 2] show ?thesis by simp
qed

section \<open>The graph builder\<close>

text \<open>
  The file system is what \<^verbatim>\<open>std::filesystem\<close> answers. \<^verbatim>\<open>fs::exists(p)\<close> and
  \<^verbatim>\<open>fs::is_directory(p)\<close> are both computed from \<^verbatim>\<open>fs::status(p)\<close> and throw
  \<^verbatim>\<open>fs::filesystem_error\<close> when it does. A \<^verbatim>\<open>fs::directory_iterator\<close> delivers
  entries until it is done, or until its construction or one of its increments throws.
\<close>

datatype filesystem_error = FilesystemError (what: string)

datatype file_type = NotFound | Regular | Directory | Other

datatype listing = Done | Entry path listing | Fails filesystem_error

record filesystem =
  fs_status :: "path \<Rightarrow> filesystem_error + file_type"
  fs_directory_iterator :: "path \<Rightarrow> listing"

definition fs_exists :: "filesystem \<Rightarrow> path \<Rightarrow> filesystem_error + bool" where
  "fs_exists fs p = (case fs_status fs p of Inl e \<Rightarrow> Inl e | Inr t \<Rightarrow> Inr (t \<noteq> NotFound))"

definition fs_is_directory :: "filesystem \<Rightarrow> path \<Rightarrow> filesystem_error + bool" where
  "fs_is_directory fs p = (case fs_status fs p of Inl e \<Rightarrow> Inl e | Inr t \<Rightarrow> Inr (t = Directory))"

text \<open>
  The state the build changes: the adjacency map, and the lines written to
  \<^verbatim>\<open>std::cerr\<close>. A call returns, or it leaves by an exception that carries the state
  reached (the map is changed in place, nothing is undone).
\<close>

record build_state =
  adjList :: graph
  cerr :: "string list"

datatype outcome = Returns build_state | Throws filesystem_error build_state | OutOfFuel

text \<open>
  \<^verbatim>\<open>
  void buildGraph(const fs::path& root) {
      if (!fs::exists(root) || !fs::is_directory(root)) { return; }
      for (const auto& entry : fs::directory_iterator(root)) {
          try {
              addEdge(root, entry.path());
              if (fs::is_directory(entry.path())) { buildGraph(entry.path()); }
          } catch (fs::filesystem_error& e) {
              std::cerr << e.what() << '\n';
              continue;
          }
      }
  }
  \<close>
  The iterator of the \<^verbatim>\<open>for\<close> statement is outside the \<^verbatim>\<open>try\<close> block: when it throws,
  the exception leaves this call, and is caught in the caller's loop when the call was a
  recursive one. The recursion has no bound of its own (a link can lead back to a
  directory above), so the model counts the nesting depth it may still enter: the first
  argument, and \<open>OutOfFuel\<close> when it is used up.
\<close>

function buildGraph :: "nat \<Rightarrow> filesystem \<Rightarrow> path \<Rightarrow> build_state \<Rightarrow> outcome"
  and build_entries :: "nat \<Rightarrow> filesystem \<Rightarrow> path \<Rightarrow> listing \<Rightarrow> build_state \<Rightarrow> outcome"
where
  "buildGraph n fs root st =
     (case fs_exists fs root of
        Inl e \<Rightarrow> Throws e st
      | Inr ex \<Rightarrow>
          if \<not> ex then Returns st
          else (case fs_is_directory fs root of
                  Inl e \<Rightarrow> Throws e st
                | Inr dir \<Rightarrow>
                    if \<not> dir then Returns st
                    else build_entries n fs root (fs_directory_iterator fs root) st))"
| "build_entries n fs root Done st = Returns st"
| "build_entries n fs root (Fails e) st = Throws e st"
| "build_entries n fs root (Entry entry rest) st =
     (let st1 = st\<lparr>adjList := addEdge root entry (adjList st)\<rparr> in
      case fs_is_directory fs entry of
        Inl e \<Rightarrow> build_entries n fs root rest (st1\<lparr>cerr := cerr st1 @ [what e]\<rparr>)
      | Inr dir \<Rightarrow>
          if \<not> dir then build_entries n fs root rest st1
          else (case n of
                  0 \<Rightarrow> OutOfFuel
                | Suc m \<Rightarrow>
                    (case buildGraph m fs entry st1 of
                       Returns st2 \<Rightarrow> build_entries n fs root rest st2
                     | Throws e st2 \<Rightarrow>
                         build_entries n fs root rest (st2\<lparr>cerr := cerr st2 @ [what e]\<rparr>)
                     | OutOfFuel \<Rightarrow> OutOfFuel)))"
  by pat_completeness auto
termination
  by (relation "measures
        [\<lambda>x. case x of Inl (n, fs, root, st) \<Rightarrow> n | Inr (n, fs, root, l, st) \<Rightarrow> n,
         \<lambda>x. case x of Inl _ \<Rightarrow> 1 | Inr _ \<Rightarrow> 0,
         \<lambda>x. case x of Inl _ \<Rightarrow> 0 | Inr (n, fs, root, l, st) \<Rightarrow> size l]")
     auto


fun listing_error :: "listing \<Rightarrow> filesystem_error option" where
  "listing_error Done = None"
| "listing_error (Fails e) = Some e"
| "listing_error (Entry p rest) = listing_error rest"

function within_depth :: "nat \<Rightarrow> filesystem \<Rightarrow> path \<Rightarrow> bool"
  and listing_within :: "nat \<Rightarrow> filesystem \<Rightarrow> listing \<Rightarrow> bool"
where
  "within_depth n fs root =
     (if fs_is_directory fs root = Inr True
      then listing_within n fs (fs_directory_iterator fs root) else True)"
| "listing_within n fs Done = True"
| "listing_within n fs (Fails e) = True"
| "listing_within n fs (Entry entry rest) =
     ((if fs_is_directory fs entry = Inr True
       then (case n of 0 \<Rightarrow> False | Suc m \<Rightarrow> within_depth m fs entry) else True)
      \<and> listing_within n fs rest)"
  by pat_completeness auto
termination
  by (relation "measures
        [\<lambda>x. case x of Inl (n, fs, root) \<Rightarrow> n | Inr (n, fs, l) \<Rightarrow> n,
         \<lambda>x. case x of Inl _ \<Rightarrow> 1 | Inr _ \<Rightarrow> 0,
         \<lambda>x. case x of Inl _ \<Rightarrow> 0 | Inr (n, fs, l) \<Rightarrow> size l]")
     auto




subsection \<open>Facts about the builder\<close>















text \<open>A call that ends by an exception ends by the error of the listing.\<close>

lemma build_entries_returns:
  "build_entries n fs root l st = Returns st' \<Longrightarrow> listing_error l = None"
proof (induction l arbitrary: st)
  case Done
  then show ?case by simp
next
  case (Fails e)
  then show ?case by simp
next
  case (Entry entry rest)
  then obtain sx where "build_entries n fs root rest sx = Returns st'"
    by (auto simp: Let_def split: sum.splits if_splits nat.splits outcome.splits)
  then show ?case using Entry.IH by simp
qed

lemma build_entries_throws:
  "build_entries n fs root l st = Throws x st' \<Longrightarrow> listing_error l = Some x"
proof (induction l arbitrary: st)
  case Done
  then show ?case by simp
next
  case (Fails e)
  then show ?case by simp
next
  case (Entry entry rest)
  then obtain sx where "build_entries n fs root rest sx = Throws x st'"
    by (auto simp: Let_def split: sum.splits if_splits nat.splits outcome.splits)
  then show ?case using Entry.IH by simp
qed

lemma buildGraph_directory:
  "fs_is_directory fs root = Inr True \<Longrightarrow>
   buildGraph n fs root st = build_entries n fs root (fs_directory_iterator fs root) st"
  by (auto simp: fs_exists_def fs_is_directory_def split: sum.splits)

lemma enough_fuel:
  "within_depth n fs root \<Longrightarrow> buildGraph n fs root st \<noteq> OutOfFuel"
  "listing_within n fs l \<Longrightarrow> build_entries n fs root l st \<noteq> OutOfFuel"
proof (induction n fs root st and n fs root l st rule: buildGraph_build_entries.induct)
  case (1 n fs root st)
  then show ?case
    by (auto simp: fs_exists_def fs_is_directory_def split: sum.splits if_splits)
next
  case (2 n fs root st)
  then show ?case by simp
next
  case (3 n fs root e st)
  then show ?case by simp
next
  case (4 n fs root entry rest st)
  from "4.prems" have rest: "listing_within n fs rest" by simp
  show ?case
  proof (cases "fs_is_directory fs entry")
    case (Inl e)
    with "4.IH"(1)[OF refl Inl rest] show ?thesis by (simp add: Let_def)
  next
    case (Inr dir)
    show ?thesis
    proof (cases dir)
      case False
      with Inr "4.IH"(2)[OF refl Inr _ rest] show ?thesis by (simp add: Let_def)
    next
      case True
      with Inr "4.prems" obtain m where n: "n = Suc m" and deep: "within_depth m fs entry"
        by (auto split: nat.splits)
      let ?st1 = "st\<lparr>adjList := addEdge root entry (adjList st)\<rparr>"
      have sub: "buildGraph m fs entry ?st1 \<noteq> OutOfFuel"
        using "4.IH"(3)[OF refl Inr _ n deep] True by simp
      show ?thesis
      proof (cases "buildGraph m fs entry ?st1")
        case (Returns st2)
        with "4.IH"(4)[OF refl Inr _ n Returns rest] True Inr n show ?thesis
          by (simp add: Let_def)
      next
        case (Throws e st2)
        with "4.IH"(5)[OF refl Inr _ n Throws rest] True Inr n show ?thesis
          by (simp add: Let_def)
      next
        case OutOfFuel
        with sub show ?thesis by simp
      qed
    qed
  qed
qed









text \<open>
  What the \<^verbatim>\<open>try\<close> block does not cover: when the listing of the root itself ends by
  an error, the call leaves with that exception.
\<close>

lemma buildGraph_root_listing_fails:
  assumes "fs_is_directory fs root = Inr True"
    and "listing_error (fs_directory_iterator fs root) = Some x"
    and "within_depth n fs root"
  shows "\<exists>st'. buildGraph n fs root st = Throws x st'"
proof -
  let ?L = "fs_directory_iterator fs root"
  have run: "buildGraph n fs root st = build_entries n fs root ?L st"
    using assms(1) by (rule buildGraph_directory)
  from assms(1,3) have "listing_within n fs ?L" by simp
  then have fuel: "build_entries n fs root ?L st \<noteq> OutOfFuel" by (rule enough_fuel(2))
  show ?thesis
  proof (cases "build_entries n fs root ?L st")
    case (Returns st')
    with assms(2) show ?thesis by (auto dest: build_entries_returns)
  next
    case (Throws y st')
    with assms(2) have "y = x" by (auto dest: build_entries_throws)
    with Throws run show ?thesis by (simp del: buildGraph.simps)
  next
    case OutOfFuel
    with fuel show ?thesis by simp
  qed
qed

section \<open>Properties of the graph builder\<close>




text \<open>
  A root with an inaccessible subdirectory, listed first, then a subdirectory with one
  file, then a file.
\<close>

definition demo_fs :: filesystem where
  "demo_fs = \<lparr>
     fs_status = (\<lambda>p. if p = r_dir \<or> p = r_locked \<or> p = r_docs then Inr Directory
                       else if p = r_file \<or> p = r_docs_a then Inr Regular else Inr NotFound),
     fs_directory_iterator =
       (\<lambda>p. if p = r_dir then Entry r_locked (Entry r_docs (Entry r_file Done))
             else if p = r_docs then Entry r_docs_a Done
             else Fails (FilesystemError ''Permission denied'')) \<rparr>"


text \<open>The same build, evaluated.\<close>

lemma buildGraph_demo:
  "buildGraph (Suc 0) demo_fs r_dir \<lparr>adjList = [], cerr = []\<rparr>
     = Returns \<lparr>adjList = [(r_dir, [r_locked, r_docs, r_file]), (r_docs, [r_docs_a]),
                              (r_docs_a, []), (r_file, []), (r_locked, [])],
                  cerr = [''Permission denied'']\<rparr>"
  by code_simp

text \<open>
  C6. When the root does not exist or is not a directory, \<^verbatim>\<open>buildGraph\<close> returns at
  once: no exception, and the state, that is the vertex set, every neighbour list and
  the error output, is what it was.
\<close>

theorem buildGraph_invalid_root:
  assumes "fs_status fs root = Inr t" and "t \<noteq> Directory"
  shows "buildGraph n fs root st = Returns st"
  using assms by (simp add: fs_exists_def fs_is_directory_def)


theorem buildGraph_invalid_root_witness:
  "fs_status demo_fs nowhere = Inr NotFound
   \<and> buildGraph 0 demo_fs nowhere \<lparr>adjList = addEdge A B [], cerr = []\<rparr>
       = Returns \<lparr>adjList = addEdge A B [], cerr = []\<rparr>
   \<and> fs_status demo_fs r_file = Inr Regular
   \<and> buildGraph 0 demo_fs r_file \<lparr>adjList = addEdge A B [], cerr = []\<rparr>
       = Returns \<lparr>adjList = addEdge A B [], cerr = []\<rparr>"
proof -
  have 1: "fs_status demo_fs nowhere = Inr NotFound" by (simp add: demo_fs_def)
  have 2: "fs_status demo_fs r_file = Inr Regular" by (simp add: demo_fs_def)
  from buildGraph_invalid_root[OF 1] buildGraph_invalid_root[OF 2] 1 2
  show ?thesis by simp
qed

end
